theory Spec2Isabelle
  imports
    Main
    "HOL-Library.Multiset"
    "HOL-Library.Product_Lexorder"
    "HOL-Library.Option_ord"
    "HOL-Library.AList"
begin

section \<open>Literals, rules and programs\<close>

text \<open>
  Modelled from the spec: the class \<open>Literal\<close> of \<open>popper/core.py\<close>, which
  \<open>popper/util.py\<close> imports and which is not part of the sources at hand. The spec
  describes it as an immutable value with a predicate symbol, an ordered sequence of
  variable names and a sequence of direction tags; \<open>inputs\<close> is the set of arguments at
  \<open>In\<close> positions and \<open>outputs\<close> the set of arguments at \<open>Out\<close> positions. Both are sets:
  \<open>order_rule\<close> calls \<open>literal.inputs.issubset\<close> and takes \<open>len(literal.outputs)\<close>.
\<close>

datatype mode = In | Out | Unbound

record literal =
  predicate :: string
  arguments :: "string list"
  modes :: "mode list"

text \<open>The constructor call \<open>Literal(predicate, arguments, modes)\<close>.\<close>

definition Literal :: "string \<Rightarrow> string list \<Rightarrow> mode list \<Rightarrow> literal" where
  "Literal p as ms = \<lparr>predicate = p, arguments = as, modes = ms\<rparr>"

definition inputs :: "literal \<Rightarrow> string set" where
  "inputs l = set (map snd (filter (\<lambda>(d, a). d = In) (zip (modes l) (arguments l))))"

definition outputs :: "literal \<Rightarrow> string set" where
  "outputs l = set (map snd (filter (\<lambda>(d, a). d = Out) (zip (modes l) (arguments l))))"

text \<open>
  A rule is the pair \<open>(head, body)\<close>; the head is \<open>None\<close> for a constraint. The body is
  the iterable the caller passes (a tuple or a frozenset), here the list of its elements.
  A program is a sequence of rules.
\<close>

type_synonym rule = "literal option \<times> literal list"

datatype error = ValueError string | AttributeError

section \<open>Rendering\<close>

fun join :: "string \<Rightarrow> string list \<Rightarrow> string" where
  "join sep [] = []"
| "join sep [x] = x"
| "join sep (x # y # ys) = x @ sep @ join sep (y # ys)"

definition format_literal :: "literal \<Rightarrow> string" where
  "format_literal l = predicate l @ ''('' @ join '','' (arguments l) @ '')''"

definition format_rule :: "rule \<Rightarrow> string" where
  "format_rule r =
     (let head_str = (case fst r of None \<Rightarrow> [] | Some h \<Rightarrow> format_literal h);
          body_str = join '','' (map format_literal (snd r))
      in head_str @ '':- '' @ body_str @ ''.'')"

section \<open>Iterating over a Python set\<close>

text \<open>
  \<open>order_rule\<close> and \<open>order_rule_datalog\<close> keep the remaining body literals in a \<open>set\<close>
  and visit it with \<open>for literal in body_literals\<close>. The order of that visit is the
  hash table's and is not fixed by the program, so the model takes it as a parameter: a
  \<open>set_order\<close> gives every element a rank that may depend on the current contents, and
  the visit goes by ascending rank. Every order of visit of a duplicate-free list arises
  from some rank (lemma \<open>iterate_any_order\<close> below), so a statement proved for all
  \<open>set_order\<close>s holds whatever the hash table does.
\<close>

type_synonym 'a set_order = "'a list \<Rightarrow> 'a \<Rightarrow> nat"

definition iterate :: "'a set_order \<Rightarrow> 'a list \<Rightarrow> 'a list" where
  "iterate so xs = sort_key (so xs) xs"

text \<open>The rank that visits the elements as they are listed.\<close>

definition listed :: "'a set_order" where
  "listed xs x = 0"

section \<open>The mode-directed scheduler\<close>

text \<open>
  The \<open>for\<close> loop of \<open>order_rule\<close>, with \<open>selected_literal\<close> as the accumulator \<open>sel\<close>.
  \<open>len(literal.outputs)\<close> is the size of a set, \<open>len(literal.arguments)\<close> the length of
  a tuple.
\<close>

fun select_literal ::
  "literal option \<Rightarrow> string set \<Rightarrow> literal option \<Rightarrow> literal list \<Rightarrow> literal option" where
  "select_literal head grounded sel [] = sel"
| "select_literal head grounded sel (l # ls) =
     (if card (outputs l) = length (arguments l) then Some l
      else if \<not> inputs l \<subseteq> grounded then select_literal head grounded sel ls
      else if head \<noteq> None \<and> predicate l \<noteq> predicate (the head) then Some l
      else if sel = None then select_literal head grounded (Some l) ls
      else select_literal head grounded sel ls)"

text \<open>
  At the \<open>raise\<close>, \<open>selected_literal\<close> is \<open>None\<close>, so the f-string renders it as the text
  \<open>None\<close>.
\<close>

definition grounding_message :: "rule \<Rightarrow> string" where
  "grounding_message r = ''None'' @ '' in clause '' @ format_rule r @ '' could not be grounded''"

text \<open>The \<open>while body_literals\<close> loop.\<close>

function order_loop ::
  "literal set_order \<Rightarrow> rule \<Rightarrow> literal option \<Rightarrow> string set \<Rightarrow> literal list \<Rightarrow> literal list
     \<Rightarrow> error + rule" where
  "order_loop so r head grounded body_literals ordered_body =
     (if body_literals = [] then Inr (head, ordered_body)
      else case select_literal head grounded None (iterate so body_literals) of
             None \<Rightarrow> Inl (ValueError (grounding_message r))
           | Some l \<Rightarrow>
               order_loop so r head (grounded \<union> outputs l)
                 (removeAll l body_literals) (ordered_body @ [l]))"
  by pat_completeness auto
termination
proof (relation "measure (\<lambda>(so, r, head, grounded, body_literals, ordered_body).
                           length body_literals)")
  show "wf (measure (\<lambda>(so, r, head, grounded, body_literals, ordered_body).
                       length body_literals))"
    by simp
next
  fix so :: "literal set_order" and r :: rule and head grounded ordered_body
    and body_literals :: "literal list" and l
  assume sel: "select_literal head grounded None (iterate so body_literals) = Some l"
  have mem: "s = Some l \<or> l \<in> set ls"
    if "select_literal head grounded s ls = Some l" for s ls
    using that by (induction ls arbitrary: s) (auto split: if_splits)
  from mem[OF sel] have "l \<in> set body_literals"
    by (simp add: iterate_def)
  then have "length (removeAll l body_literals) < length body_literals"
    by (simp add: length_removeAll_less)
  then show "((so, r, head, grounded \<union> outputs l, removeAll l body_literals,
               ordered_body @ [l]),
              (so, r, head, grounded, body_literals, ordered_body))
             \<in> measure (\<lambda>(so, r, head, grounded, body_literals, ordered_body).
                          length body_literals)"
    by simp
qed

declare order_loop.simps [simp del]

section \<open>The recall-directed scheduler\<close>

text \<open>
  The fields of \<open>Settings\<close> that the functions modelled here read. \<open>body_preds\<close> is a
  set of (predicate, arity) pairs, \<open>recall\<close> a dictionary keyed by a predicate and a
  string of \<open>0\<close>s and \<open>1\<close>s. \<open>max_arity\<close> is computed by \<open>Settings\<close> as a maximum that
  starts from \<open>0\<close>, so it is a natural number; the other bounds are whatever integers
  the bias file or the command line give.
\<close>

record settings =
  datalog :: bool
  recall :: "string \<times> string \<rightharpoonup> int"
  no_bias :: bool
  order_space :: bool
  max_vars :: int
  max_rules :: int
  max_body :: int
  max_arity :: nat
  body_preds :: "(string \<times> int) set"

definition tmp_score :: "settings \<Rightarrow> string set \<Rightarrow> literal \<Rightarrow> int" where
  "tmp_score st seen_vars l =
     (let key = map (\<lambda>x. if x \<in> seen_vars then CHR ''1'' else CHR ''0'') (arguments l);
          k = (predicate l, key)
      in case recall st k of Some v \<Rightarrow> v | None \<Rightarrow> 1000000)"

text \<open>
  One pass of the \<open>while\<close> loop of \<open>order_rule_datalog\<close>: the first literal visited
  whose arguments have all been seen, else the first element of the remaining literals
  sorted (stably) by \<open>tmp_score\<close>. The caller has checked that the set is not empty.
\<close>

definition select_datalog ::
  "literal set_order \<Rightarrow> settings \<Rightarrow> string set \<Rightarrow> literal list \<Rightarrow> literal" where
  "select_datalog so st seen_vars body_literals =
     (case find (\<lambda>l. set (arguments l) \<subseteq> seen_vars) (iterate so body_literals) of
        Some l \<Rightarrow> l
      | None \<Rightarrow> hd (sort_key (tmp_score st seen_vars) (iterate so body_literals)))"

function datalog_loop ::
  "literal set_order \<Rightarrow> settings \<Rightarrow> string set \<Rightarrow> literal list \<Rightarrow> literal list
     \<Rightarrow> literal list" where
  "datalog_loop so st seen_vars body_literals ordered_body =
     (if body_literals = [] then ordered_body
      else datalog_loop so st
             (seen_vars \<union> set (arguments (select_datalog so st seen_vars body_literals)))
             (removeAll (select_datalog so st seen_vars body_literals) body_literals)
             (ordered_body @ [select_datalog so st seen_vars body_literals]))"
  by pat_completeness auto
termination
proof (relation "measure (\<lambda>(so, st, seen_vars, body_literals, ordered_body).
                           length body_literals)")
  show "wf (measure (\<lambda>(so, st, seen_vars, body_literals, ordered_body).
                       length body_literals))"
    by simp
next
  fix so :: "literal set_order" and st :: settings and seen_vars ordered_body
    and body_literals :: "literal list"
  assume ne: "body_literals \<noteq> []"
  let ?l = "select_datalog so st seen_vars body_literals"
  have "?l \<in> set body_literals"
  proof (cases "find (\<lambda>l. set (arguments l) \<subseteq> seen_vars) (iterate so body_literals)")
    case None
    have "sort_key (tmp_score st seen_vars) (iterate so body_literals) \<noteq> []"
      using ne by (metis length_0_conv length_sort iterate_def)
    then have "hd (sort_key (tmp_score st seen_vars) (iterate so body_literals))
                 \<in> set (sort_key (tmp_score st seen_vars) (iterate so body_literals))"
      by (rule hd_in_set)
    then show ?thesis
      using None by (simp add: select_datalog_def iterate_def)
  next
    case (Some l)
    then have "l \<in> set (iterate so body_literals)"
      by (auto simp: find_Some_iff)
    then show ?thesis
      using Some by (simp add: select_datalog_def iterate_def)
  qed
  then have "length (removeAll ?l body_literals) < length body_literals"
    by (simp add: length_removeAll_less)
  then show "((so, st, seen_vars \<union> set (arguments ?l), removeAll ?l body_literals,
               ordered_body @ [?l]),
              (so, st, seen_vars, body_literals, ordered_body))
             \<in> measure (\<lambda>(so, st, seen_vars, body_literals, ordered_body).
                          length body_literals)"
    by simp
qed

declare datalog_loop.simps [simp del]

definition order_rule_datalog :: "literal set_order \<Rightarrow> settings \<Rightarrow> rule \<Rightarrow> rule" where
  "order_rule_datalog so st r =
     (let head = fst r; body = snd r;
          seen_vars = (case head of None \<Rightarrow> {} | Some h \<Rightarrow> set (arguments h))
      in (head, datalog_loop so st seen_vars (remdups body) []))"

section \<open>The entry point of the scheduler\<close>

text \<open>
  \<open>head.inputs == []\<close> compares a frozenset with a list. In Python a set and a list are
  never equal, whatever they hold, so the comparison is \<open>False\<close> also when the set is
  empty.
\<close>

definition set_eq_list :: "'a set \<Rightarrow> 'a list \<Rightarrow> bool" where
  "set_eq_list s xs = False"

text \<open>
  \<open>if settings and settings.datalog\<close> and \<open>if head\<close> test objects, which are true
  unless they are \<open>None\<close>. \<open>set(body)\<close> drops repeated elements.
\<close>

definition order_rule :: "literal set_order \<Rightarrow> settings option \<Rightarrow> rule \<Rightarrow> error + rule" where
  "order_rule so st r =
     (if st \<noteq> None \<and> datalog (the st) then Inr (order_rule_datalog so (the st) r)
      else
        let head = fst r; body = snd r in
        if head \<noteq> None \<and> set_eq_list (inputs (the head)) [] then Inr r
        else order_loop so r head
               (case head of None \<Rightarrow> {} | Some hl \<Rightarrow> inputs hl) (remdups body) [])"

section \<open>Deduplication and canonical order\<close>

text \<open>
  The local function \<open>f\<close> of \<open>reduce_prog\<close>. Applied to a head that is \<open>None\<close>, the
  attribute access \<open>literal.predicate\<close> raises \<open>AttributeError\<close>.
\<close>

type_synonym signature = "string \<times> string list"

definition reduce_prog_f :: "literal \<Rightarrow> signature" where
  "reduce_prog_f l = (predicate l, arguments l)"

text \<open>
  The dictionary \<open>reduced\<close> is an association list in insertion order: assigning to a
  key that is present replaces its value where it stands, assigning to a new key appends,
  which is what \<open>AList.update\<close> does. The key is the pair of the head's signature and the
  frozenset of the body's signatures.
\<close>

type_synonym rule_key = "signature \<times> signature set"

text \<open>The key \<open>k\<close> that the loop body computes for a rule.\<close>

definition reduce_prog_key :: "rule \<Rightarrow> error + rule_key" where
  "reduce_prog_key r =
     (case fst r of
        None \<Rightarrow> Inl AttributeError
      | Some h \<Rightarrow> Inr (reduce_prog_f h, set (map reduce_prog_f (snd r))))"

fun reduce_loop :: "(rule_key \<times> rule) list \<Rightarrow> rule list \<Rightarrow> error + (rule_key \<times> rule) list" where
  "reduce_loop reduced [] = Inr reduced"
| "reduce_loop reduced (r # rs) =
     (case reduce_prog_key r of
        Inl e \<Rightarrow> Inl e
      | Inr k \<Rightarrow> reduce_loop (AList.update k r reduced) rs)"

definition reduce_prog :: "rule list \<Rightarrow> error + rule list" where
  "reduce_prog prog =
     (case reduce_loop [] prog of Inl e \<Rightarrow> Inl e | Inr reduced \<Rightarrow> Inr (map snd reduced))"

text \<open>
  \<open>rule_is_recursive\<close>: every element of a body is a \<open>Literal\<close> here, so the filter
  \<open>isinstance(literal, Literal)\<close> keeps all of them.
\<close>

definition rule_is_recursive :: "rule \<Rightarrow> bool" where
  "rule_is_recursive r =
     (case fst r of
        None \<Rightarrow> False
      | Some h \<Rightarrow> list_ex (\<lambda>l. predicate h = predicate l) (snd r))"

text \<open>
  \<open>sorted\<close> is stable and compares the key tuples lexicographically, \<open>False\<close> before
  \<open>True\<close>.
\<close>

definition order_prog :: "rule list \<Rightarrow> rule list" where
  "order_prog prog = sort_key (\<lambda>r. (rule_is_recursive r, length (snd r))) prog"

section \<open>Subsumption\<close>

text \<open>
  \<open>rule_subsumes\<close> works on reduced rules: a head that may be \<open>None\<close> and a frozenset of
  body signatures.
\<close>

definition rule_subsumes :: "'h option \<times> 'b set \<Rightarrow> 'h option \<times> 'b set \<Rightarrow> bool" where
  "rule_subsumes r1 r2 =
     (let h1 = fst r1; b1 = snd r1; h2 = fst r2; b2 = snd r2
      in if h1 \<noteq> None \<and> h2 = None then False else b1 \<subseteq> b2)"

definition theory_subsumes ::
  "('h option \<times> 'b set) list \<Rightarrow> ('h option \<times> 'b set) list \<Rightarrow> bool" where
  "theory_subsumes prog1 prog2 =
     list_all (\<lambda>r2. list_ex (\<lambda>r1. rule_subsumes r1 r2) prog1) prog2"

section \<open>The search order\<close>

text \<open>
  \<open>range(a, b)\<close> over integers, and \<open>math.comb\<close>, which raises \<open>ValueError\<close> on a
  negative argument and is \<open>0\<close> when \<open>k > n\<close>.
\<close>

definition py_range :: "int \<Rightarrow> int \<Rightarrow> int list" where
  "py_range a b = [a..b - 1]"

definition comb :: "int \<Rightarrow> int \<Rightarrow> error + int" where
  "comb n k =
     (if n < 0 then Inl (ValueError ''n must be a non-negative integer'')
      else if k < 0 then Inl (ValueError ''k must be a non-negative integer'')
      else Inr (int (nat n choose nat k)))"

text \<open>
  A search-order entry is the tuple \<open>(size_literals, size_vars, size_rules, hspace)\<close>,
  with \<open>None\<close> for \<open>hspace\<close> in the simple mode.
\<close>

type_synonym entry = "int \<times> int \<times> int \<times> int option"

text \<open>
  The three nested \<open>for\<close> loops of \<open>bias_order\<close>, innermost first; each takes the values
  its loop variable still has to run through and the list \<open>ret\<close> built so far. \<open>break\<close>
  returns from the innermost loop, \<open>continue\<close> goes on with the next value.
\<close>

fun vars_loop :: "settings \<Rightarrow> int \<Rightarrow> int \<Rightarrow> int list \<Rightarrow> entry list \<Rightarrow> error + entry list" where
  "vars_loop st size_rules size_literals [] ret = Inr ret"
| "vars_loop st size_rules size_literals (size_vars # rest) ret =
     (let predicates = int (card (body_preds st)) + 1;
          arity = max_arity st;
          max_possible_vars = size_literals * int arity - 1
      in if size_vars > max_possible_vars then Inr ret
         else case comb (predicates * size_vars ^ arity) size_literals of
                Inl e \<Rightarrow> Inl e
              | Inr hspace \<Rightarrow>
                  if hspace = 0 then vars_loop st size_rules size_literals rest ret
                  else if size_rules > 1 \<and> size_literals < 5
                    then vars_loop st size_rules size_literals rest ret
                  else vars_loop st size_rules size_literals rest
                         (ret @ [(size_literals, size_vars, size_rules, Some hspace)]))"

fun literals_loop :: "settings \<Rightarrow> int \<Rightarrow> int list \<Rightarrow> entry list \<Rightarrow> error + entry list" where
  "literals_loop st size_rules [] ret = Inr ret"
| "literals_loop st size_rules (size_literals # rest) ret =
     (let minimum_vars = (if no_bias st then 1 else max_vars st)
      in case vars_loop st size_rules size_literals
                (py_range minimum_vars (max_vars st + 1)) ret of
           Inl e \<Rightarrow> Inl e
         | Inr ret' \<Rightarrow> literals_loop st size_rules rest ret')"

fun rules_loop :: "settings \<Rightarrow> int list \<Rightarrow> entry list \<Rightarrow> error + entry list" where
  "rules_loop st [] ret = Inr ret"
| "rules_loop st (size_rules # rest) ret =
     (let max_size = (1 + max_body st) * size_rules
      in case literals_loop st size_rules (py_range 1 (max_size + 1)) ret of
           Inl e \<Rightarrow> Inl e
         | Inr ret' \<Rightarrow> rules_loop st rest ret')"

text \<open>
  \<open>bias_order\<close> returns the list it also stores in \<open>settings.search_order\<close>. The sort key
  \<open>(tup[3], tup[0])\<close> pairs the estimated space with the literal count; in the expanded
  mode every \<open>tup[3]\<close> is an integer.
\<close>

definition bias_order :: "settings \<Rightarrow> int \<Rightarrow> error + entry list" where
  "bias_order st max_size =
     (if \<not> (no_bias st \<or> order_space st)
      then Inr (map (\<lambda>size_literals. (size_literals, max_vars st, max_rules st, None))
                  (py_range 1 max_size))
      else
        let min_rules = (if no_bias st then 1 else max_rules st)
        in case rules_loop st (py_range min_rules (max_rules st + 1)) [] of
             Inl e \<Rightarrow> Inl e
           | Inr ret \<Rightarrow>
               Inr (if order_space st
                    then sort_key (\<lambda>tup. (snd (snd (snd tup)), fst tup)) ret
                    else ret))"

section \<open>Properties of the schedulers\<close>

lemma filter_eq_singleton:
  "distinct zs \<Longrightarrow> k \<in> set zs \<Longrightarrow> filter (\<lambda>x. x = k) zs = [k]"
  by (induction zs) (auto simp: filter_empty_conv)

lemma iterate_any_order:
  assumes "distinct xs" and "mset ys = mset xs"
  shows "\<exists>so. iterate so xs = ys"
proof -
  define f where "f = (\<lambda>x. length (takeWhile (\<lambda>y. y \<noteq> x) ys))"
  have dys: "distinct ys"
    using assms by (metis mset_eq_imp_distinct_iff)
  have sets: "set ys = set xs"
    using assms(2) by (rule mset_eq_setD)
  have idx: "f (ys ! i) = i" if "i < length ys" for i
  proof -
    have "takeWhile (\<lambda>y. y \<noteq> ys ! i) ys = take i ys"
    proof (rule takeWhile_eq_take_P_nth)
      fix j assume "j < i" "j < length ys"
      with that dys show "ys ! j \<noteq> ys ! i"
        by (simp add: nth_eq_iff_index_eq)
    next
      show "\<not> ys ! i \<noteq> ys ! i" by simp
    qed
    with that show ?thesis
      by (simp add: f_def)
  qed
  have "map f ys = [0..<length ys]"
    by (rule nth_equalityI) (simp_all add: idx)
  then have srt: "sorted (map f ys)"
    by simp
  have inj: "k = x" if "k \<in> set ys" "x \<in> set ys" "f k = f x" for k x
    using that idx by (metis in_set_conv_nth)
  have flt: "filter (\<lambda>x. f k = f x) zs = [k]"
    if "k \<in> set ys" "distinct zs" "set zs = set ys" for k zs
  proof -
    have "filter (\<lambda>x. f k = f x) zs = filter (\<lambda>x. x = k) zs"
      by (rule filter_cong) (use that inj in auto)
    also have "\<dots> = [k]"
      using that by (simp add: filter_eq_singleton)
    finally show ?thesis .
  qed
  have "sort_key f xs = ys"
  proof (rule properties_for_sort_key)
    show "mset ys = mset xs" by (rule assms(2))
    show "sorted (map f ys)" by (rule srt)
    fix k assume k: "k \<in> set ys"
    show "filter (\<lambda>x. f k = f x) ys = filter (\<lambda>x. f k = f x) xs"
      using flt[OF k dys refl] flt[OF k assms(1) sets[symmetric]] by simp
  qed
  then have "iterate (\<lambda>_. f) xs = ys"
    by (simp add: iterate_def)
  then show ?thesis
    by blast
qed

lemma generator_no_inputs:
  assumes "card (outputs l) = length (arguments l)"
  shows "inputs l = {}"
proof -
  let ?zs = "zip (modes l) (arguments l)"
  let ?os = "filter (\<lambda>(d, a). d = Out) ?zs"
  have "card (outputs l) \<le> length ?os"
    unfolding outputs_def by (metis card_length length_map)
  moreover have "length ?os \<le> length ?zs"
    by (rule length_filter_le)
  moreover have "length ?zs \<le> length (arguments l)"
    by simp
  ultimately have "length ?os = length ?zs"
    using assms by linarith
  then have "\<forall>z \<in> set ?zs. (\<lambda>(d, a). d = Out) z"
    by (metis length_filter_less less_irrefl)
  then have "filter (\<lambda>(d, a). d = In) ?zs = []"
    by (auto simp: filter_empty_conv)
  then show ?thesis
    by (simp add: inputs_def)
qed

lemma select_literal_sound:
  "select_literal head g sel ls = Some l \<Longrightarrow>
     sel = Some l \<or> (l \<in> set ls \<and> inputs l \<subseteq> g)"
  by (induction ls arbitrary: sel) (auto split: if_splits simp: generator_no_inputs)

lemma select_literal_stuck:
  "select_literal head g sel ls = None \<longleftrightarrow>
     sel = None \<and> list_all (\<lambda>l. card (outputs l) \<noteq> length (arguments l) \<and> \<not> inputs l \<subseteq> g) ls"
  by (induction ls arbitrary: sel) auto

lemma set_iterate [simp]: "set (iterate so xs) = set xs"
  by (simp add: iterate_def)

lemma mset_iterate [simp]: "mset (iterate so xs) = mset xs"
  by (simp add: iterate_def)

lemma order_loop_result:
  "order_loop so r head g rem acc = Inr (h, ob) \<Longrightarrow> distinct rem \<Longrightarrow>
     h = head \<and> (\<exists>suf. ob = acc @ suf \<and> mset suf = mset rem \<and>
        (\<forall>i < length suf. inputs (suf ! i) \<subseteq> g \<union> \<Union> (outputs ` set (take i suf))))"
proof (induction so r head g rem acc rule: order_loop.induct)
  case (1 so r head g rem acc)
  show ?case
  proof (cases "rem = []")
    case True
    with "1.prems" show ?thesis
      by (simp add: order_loop.simps)
  next
    case False
    from "1.prems"(1) False obtain l where
      sel: "select_literal head g None (iterate so rem) = Some l" and
      rec: "order_loop so r head (g \<union> outputs l) (removeAll l rem) (acc @ [l]) = Inr (h, ob)"
      by (auto simp: order_loop.simps[of so r head g rem acc] split: option.splits)
    from select_literal_sound[OF sel] have mem: "l \<in> set rem" and sub: "inputs l \<subseteq> g"
      by simp_all
    have d: "distinct (removeAll l rem)"
      using "1.prems"(2) by (simp add: distinct_removeAll)
    from "1.IH"[OF False sel rec d] obtain suf where
      h: "h = head" and ob: "ob = (acc @ [l]) @ suf" and
      ms: "mset suf = mset (removeAll l rem)" and
      safe: "\<forall>i < length suf. inputs (suf ! i) \<subseteq> (g \<union> outputs l) \<union> \<Union> (outputs ` set (take i suf))"
      by blast
    have ms': "mset (l # suf) = mset rem"
      using ms mem "1.prems"(2) by (simp add: distinct_remove1_removeAll[symmetric])
    have "inputs ((l # suf) ! i) \<subseteq> g \<union> \<Union> (outputs ` set (take i (l # suf)))"
      if "i < length (l # suf)" for i
    proof (cases i)
      case 0
      then show ?thesis using sub by auto
    next
      case (Suc j)
      with that safe have "inputs (suf ! j) \<subseteq> (g \<union> outputs l) \<union> \<Union> (outputs ` set (take j suf))"
        by simp
      with Suc show ?thesis by auto
    qed
    with h ob ms' show ?thesis
      by (intro conjI exI[of _ "l # suf"]) auto
  qed
qed


lemma order_loop_stuck:
  assumes "rem \<noteq> []"
    and "list_all (\<lambda>l. card (outputs l) \<noteq> length (arguments l) \<and> \<not> inputs l \<subseteq> g) rem"
  shows "order_loop so r head g rem acc = Inl (ValueError (grounding_message r))"
proof -
  have "list_all (\<lambda>l. card (outputs l) \<noteq> length (arguments l) \<and> \<not> inputs l \<subseteq> g)
          (iterate so rem)"
    using assms(2) by (simp add: list_all_iff)
  then have "select_literal head g None (iterate so rem) = None"
    by (simp add: select_literal_stuck)
  then show ?thesis
    using assms(1) by (simp add: order_loop.simps[of so r head g rem acc])
qed

lemma order_loop_error:
  "order_loop so r head g rem acc = Inl e \<Longrightarrow> e = ValueError (grounding_message r)"
proof (induction so r head g rem acc rule: order_loop.induct)
  case (1 so r head g rem acc)
  then show ?case
    by (cases "rem = []")
      (auto simp: order_loop.simps[of so r head g rem acc] order_loop.simps[of so r head g "[]" acc]
         split: option.splits)
qed

lemma order_rule_error:
  assumes "order_rule so st r = Inl e"
  shows "e = ValueError (grounding_message r)"
proof (cases "st \<noteq> None \<and> datalog (the st)")
  case True
  with assms show ?thesis
    by (simp add: order_rule_def)
next
  case False
  with assms have "order_loop so r (fst r)
      (case fst r of None \<Rightarrow> {} | Some hl \<Rightarrow> inputs hl) (remdups (snd r)) [] = Inl e"
    by (auto simp: order_rule_def set_eq_list_def Let_def)
  then show ?thesis
    by (rule order_loop_error)
qed

lemma select_datalog_mem:
  assumes "rem \<noteq> []"
  shows "select_datalog so st seen rem \<in> set rem"
proof (cases "find (\<lambda>l. set (arguments l) \<subseteq> seen) (iterate so rem)")
  case None
  have "sort_key (tmp_score st seen) (iterate so rem) \<noteq> []"
    using assms by (metis length_0_conv length_sort iterate_def)
  then have "hd (sort_key (tmp_score st seen) (iterate so rem))
               \<in> set (sort_key (tmp_score st seen) (iterate so rem))"
    by (rule hd_in_set)
  then show ?thesis
    using None by (simp add: select_datalog_def)
next
  case (Some l)
  then have "l \<in> set (iterate so rem)"
    by (metis find_Some_iff nth_mem)
  then show ?thesis
    using Some by (simp add: select_datalog_def)
qed

lemma mset_datalog_loop:
  "distinct rem \<Longrightarrow> mset (datalog_loop so st seen rem acc) = mset acc + mset rem"
proof (induction so st seen rem acc rule: datalog_loop.induct)
  case (1 so st seen rem acc)
  show ?case
  proof (cases "rem = []")
    case True
    then show ?thesis by (simp add: datalog_loop.simps)
  next
    case False
    let ?l = "select_datalog so st seen rem"
    have mem: "?l \<in> set rem"
      using False by (rule select_datalog_mem)
    have d: "distinct (removeAll ?l rem)"
      using "1.prems" by (simp add: distinct_removeAll)
    have "mset (datalog_loop so st seen rem acc)
            = mset (datalog_loop so st (seen \<union> set (arguments ?l)) (removeAll ?l rem) (acc @ [?l]))"
      using False by (simp add: datalog_loop.simps[of so st seen rem acc])
    also have "\<dots> = mset (acc @ [?l]) + mset (removeAll ?l rem)"
      using "1.IH"[OF False d] .
    also have "\<dots> = mset acc + mset rem"
      using mem "1.prems" by (simp add: distinct_remove1_removeAll[symmetric])
    finally show ?thesis .
  qed
qed

lemma order_rule_mset_remdups:
  assumes "order_rule so st (head, body) = Inr (h, ordered_body)"
  shows "h = head \<and> mset ordered_body = mset (remdups body)"
proof (cases "st \<noteq> None \<and> datalog (the st)")
  case True
  then have "order_rule so st (head, body) = Inr (order_rule_datalog so (the st) (head, body))"
    by (simp add: order_rule_def)
  with assms have "(h, ordered_body) = order_rule_datalog so (the st) (head, body)"
    by simp
  then show ?thesis
    by (simp add: order_rule_datalog_def mset_datalog_loop)
next
  case False
  then have "order_loop so (head, body) head
               (case head of None \<Rightarrow> {} | Some hl \<Rightarrow> inputs hl) (remdups body) [] = Inr (h, ordered_body)"
    using assms by (auto simp: order_rule_def set_eq_list_def)
  from order_loop_result[OF this] show ?thesis
    by auto
qed

text \<open>
  Claim C2. When \<open>order_rule\<close> returns, under either scheduling policy, the head is the
  rule's head and \<open>ordered_body\<close> is a permutation of the body: the same multiset of
  literals, none left out and none repeated. The body is a set of literals, so its
  elements are distinct (for a tuple with repeated literals, \<open>set(body)\<close> keeps one copy
  of each: lemma \<open>order_rule_mset_remdups\<close>).
\<close>

theorem order_rule_permutation:
  assumes "order_rule so st (head, body) = Inr (h, ordered_body)"
    and "distinct body"
  shows "h = head \<and> mset ordered_body = mset body"
  using order_rule_mset_remdups[OF assms(1)] assms(2) by (simp add: distinct_remdups_id)

text \<open>
  Claim C1. When the mode-directed scheduler returns, every literal of \<open>ordered_body\<close>
  has its input variables among the head's input variables (none for a rule without a
  head) and the output variables of the literals placed strictly before it.
\<close>

theorem order_rule_grounding_safe:
  assumes "order_rule so st (head, body) = Inr (h, ordered_body)"
    and "st = None \<or> \<not> datalog (the st)"
  shows "\<forall>i < length ordered_body.
           inputs (ordered_body ! i)
             \<subseteq> (case head of None \<Rightarrow> {} | Some hl \<Rightarrow> inputs hl)
                 \<union> \<Union> (outputs ` set (take i ordered_body))"
proof -
  have "order_loop so (head, body) head
          (case head of None \<Rightarrow> {} | Some hl \<Rightarrow> inputs hl) (remdups body) [] = Inr (h, ordered_body)"
    using assms by (auto simp: order_rule_def set_eq_list_def)
  from order_loop_result[OF this] show ?thesis
    by auto
qed


theorem order_rule_grounding_safe_witness:
  "order_rule listed None
     (Some (Literal ''p'' [''A'', ''B''] [In, Out]),
      [Literal ''r'' [''C'', ''B''] [In, Out], Literal ''q'' [''A'', ''C''] [In, Out]])
   = Inr (Some (Literal ''p'' [''A'', ''B''] [In, Out]),
      [Literal ''q'' [''A'', ''C''] [In, Out], Literal ''r'' [''C'', ''B''] [In, Out]])
   \<and> inputs (Literal ''q'' [''A'', ''C''] [In, Out]) \<subseteq> inputs (Literal ''p'' [''A'', ''B''] [In, Out])
   \<and> inputs (Literal ''r'' [''C'', ''B''] [In, Out])
       \<subseteq> inputs (Literal ''p'' [''A'', ''B''] [In, Out])
         \<union> outputs (Literal ''q'' [''A'', ''C''] [In, Out])"
proof -
  let ?p = "Literal ''p'' [''A'', ''B''] [In, Out]"
  let ?q = "Literal ''q'' [''A'', ''C''] [In, Out]"
  let ?r = "Literal ''r'' [''C'', ''B''] [In, Out]"
  have e: "order_rule listed None (Some ?p, [?r, ?q]) = Inr (Some ?p, [?q, ?r])"
    by (simp add: Let_def order_rule_def set_eq_list_def order_loop.simps iterate_def
        listed_def Literal_def inputs_def outputs_def)
  have m: "(None :: settings option) = None \<or> \<not> datalog (the None)"
    by simp
  note safe = order_rule_grounding_safe[OF e m, rule_format]
  from safe[of 0] have a: "inputs ?q \<subseteq> inputs ?p"
    by simp
  from safe[of 1] have b: "inputs ?r \<subseteq> inputs ?p \<union> outputs ?q"
    by simp
  from e a b show ?thesis
    by simp
qed

theorem order_rule_permutation_witness:
  "order_rule listed None
     (None,
      [Literal ''s'' [''B'', ''C''] [In, Out], Literal ''t'' [''A'', ''B''] [In, Out],
       Literal ''g'' [''A''] [Out]])
   = Inr (None,
      [Literal ''g'' [''A''] [Out], Literal ''t'' [''A'', ''B''] [In, Out],
       Literal ''s'' [''B'', ''C''] [In, Out]])
   \<and> mset [Literal ''g'' [''A''] [Out], Literal ''t'' [''A'', ''B''] [In, Out],
             Literal ''s'' [''B'', ''C''] [In, Out]]
     = mset [Literal ''s'' [''B'', ''C''] [In, Out], Literal ''t'' [''A'', ''B''] [In, Out],
             Literal ''g'' [''A''] [Out]]"
proof -
  let ?s = "Literal ''s'' [''B'', ''C''] [In, Out]"
  let ?t = "Literal ''t'' [''A'', ''B''] [In, Out]"
  let ?g = "Literal ''g'' [''A''] [Out]"
  have e: "order_rule listed None (None, [?s, ?t, ?g]) = Inr (None, [?g, ?t, ?s])"
    by (simp add: Let_def order_rule_def set_eq_list_def order_loop.simps iterate_def
        listed_def Literal_def inputs_def outputs_def)
  have d: "distinct [?s, ?t, ?g]"
    by (simp add: Literal_def)
  from order_rule_permutation[OF e d] e show ?thesis
    by simp
qed

text \<open>
  Claim C4, at a rule whose head has no input variable. The early return
  \<open>if head.inputs == []: return rule\<close> is never taken, since the set \<open>head.inputs\<close> is not
  equal to a list: the rule goes through the selection loop with nothing grounded. For
  \<open>p(A) :- q(A,B), r(A)\<close> with \<open>p\<close> and \<open>r\<close> producing \<open>A\<close> and \<open>q\<close> consuming it, the body
  comes back reordered, whatever the order of the set; for \<open>p(A) :- q(A)\<close> with \<open>q\<close>
  consuming \<open>A\<close>, the call raises.
\<close>

theorem order_rule_head_without_inputs:
  "inputs (Literal ''p'' [''A''] [Out]) = {}
   \<and> order_rule so None
       (Some (Literal ''p'' [''A''] [Out]),
        [Literal ''q'' [''A'', ''B''] [In, Out], Literal ''r'' [''A''] [Out]])
     = Inr (Some (Literal ''p'' [''A''] [Out]),
        [Literal ''r'' [''A''] [Out], Literal ''q'' [''A'', ''B''] [In, Out]])
   \<and> order_rule so None
       (Some (Literal ''p'' [''A''] [Out]), [Literal ''q'' [''A''] [In]])
     = Inl (ValueError ''None in clause p(A):- q(A). could not be grounded'')"
  by (simp add: Let_def order_rule_def set_eq_list_def order_loop.simps iterate_def
      Literal_def inputs_def outputs_def grounding_message_def format_rule_def
      format_literal_def)

text \<open>
  Claim C6, at \<open>p(A) :- q(A), r(B)\<close> with every argument an input. \<open>q(A)\<close> is scheduled
  and \<open>r(B)\<close> is stuck, whatever the order of the set. The \<open>ValueError\<close> raised carries
  the rule's text, but where the stuck literal should stand it says \<open>None\<close>: the message
  formats \<open>selected_literal\<close>, which is \<open>None\<close> whenever the \<open>raise\<close> is reached.
\<close>

theorem order_rule_grounding_error_message:
  "order_rule so None
     (Some (Literal ''p'' [''A''] [In]),
      [Literal ''q'' [''A''] [In], Literal ''r'' [''B''] [In]])
   = Inl (ValueError ''None in clause p(A):- q(A),r(B). could not be grounded'')"
  by (simp add: Let_def order_rule_def set_eq_list_def order_loop.simps iterate_def
      Literal_def inputs_def outputs_def grounding_message_def format_rule_def
      format_literal_def)

lemma order_loop_error_stuck:
  "order_loop so r head g rem acc = Inl e \<Longrightarrow>
     \<exists>R. R \<noteq> {} \<and> R \<subseteq> set rem \<and>
       (\<forall>l \<in> R. card (outputs l) \<noteq> length (arguments l)
          \<and> \<not> inputs l \<subseteq> g \<union> \<Union> (outputs ` (set rem - R)))"
proof (induction so r head g rem acc rule: order_loop.induct)
  case (1 so r head g rem acc)
  have ne: "rem \<noteq> []"
    using "1.prems" by (auto simp: order_loop.simps[of so r head g "[]" acc])
  show ?case
  proof (cases "select_literal head g None (iterate so rem)")
    case None
    then have "list_all (\<lambda>l. card (outputs l) \<noteq> length (arguments l) \<and> \<not> inputs l \<subseteq> g)
                 (iterate so rem)"
      by (simp add: select_literal_stuck)
    then have all: "\<forall>l \<in> set rem. card (outputs l) \<noteq> length (arguments l) \<and> \<not> inputs l \<subseteq> g"
      by (simp add: list_all_iff)
    have "set rem \<noteq> {}"
      using ne by simp
    moreover have "\<forall>l \<in> set rem. card (outputs l) \<noteq> length (arguments l)
          \<and> \<not> inputs l \<subseteq> g \<union> \<Union> (outputs ` (set rem - set rem))"
      using all by simp
    ultimately show ?thesis
      by blast
  next
    case (Some l)
    then have rec: "order_loop so r head (g \<union> outputs l) (removeAll l rem) (acc @ [l]) = Inl e"
      using "1.prems" ne by (simp add: order_loop.simps[of so r head g rem acc])
    from "1.IH"[OF ne Some rec] obtain R where
      R: "R \<noteq> {}" "R \<subseteq> set (removeAll l rem)" and
      st: "\<forall>l' \<in> R. card (outputs l') \<noteq> length (arguments l')
          \<and> \<not> inputs l' \<subseteq> (g \<union> outputs l) \<union> \<Union> (outputs ` (set (removeAll l rem) - R))"
      by blast
    from select_literal_sound[OF Some] have mem: "l \<in> set rem"
      by simp
    have notin: "l \<notin> R"
      using R(2) by auto
    have eq: "(g \<union> outputs l) \<union> \<Union> (outputs ` (set (removeAll l rem) - R))
                = g \<union> \<Union> (outputs ` (set rem - R))"
      using mem notin by auto
    have "R \<subseteq> set rem"
      using R(2) by auto
    with R(1) st show ?thesis
      unfolding eq by blast
  qed
qed

lemma order_loop_stuck_error:
  "R \<noteq> {} \<Longrightarrow> R \<subseteq> set rem \<Longrightarrow>
     \<forall>l \<in> R. card (outputs l) \<noteq> length (arguments l)
        \<and> \<not> inputs l \<subseteq> g \<union> \<Union> (outputs ` (set rem - R)) \<Longrightarrow>
     order_loop so r head g rem acc = Inl (ValueError (grounding_message r))"
proof (induction so r head g rem acc rule: order_loop.induct)
  case (1 so r head g rem acc)
  have ne: "rem \<noteq> []"
    using "1.prems"(1,2) by auto
  show ?case
  proof (cases "select_literal head g None (iterate so rem)")
    case None
    then show ?thesis
      using ne by (simp add: order_loop.simps[of so r head g rem acc])
  next
    case (Some l)
    from select_literal_sound[OF Some] have mem: "l \<in> set rem" and sub: "inputs l \<subseteq> g"
      by simp_all
    have notin: "l \<notin> R"
      using "1.prems"(3) sub by blast
    have R': "R \<subseteq> set (removeAll l rem)"
      using "1.prems"(2) notin by auto
    have eq: "(g \<union> outputs l) \<union> \<Union> (outputs ` (set (removeAll l rem) - R))
                = g \<union> \<Union> (outputs ` (set rem - R))"
      using mem notin by auto
    have st: "\<forall>l' \<in> R. card (outputs l') \<noteq> length (arguments l')
          \<and> \<not> inputs l' \<subseteq> (g \<union> outputs l) \<union> \<Union> (outputs ` (set (removeAll l rem) - R))"
      unfolding eq by (rule "1.prems"(3))
    have "order_loop so r head (g \<union> outputs l) (removeAll l rem) (acc @ [l])
            = Inl (ValueError (grounding_message r))"
      by (rule "1.IH"[OF ne Some "1.prems"(1) R' st])
    then show ?thesis
      using ne Some by (simp add: order_loop.simps[of so r head g rem acc])
  qed
qed

text \<open>
  Claim C10. For a rule without a head the mode-directed scheduler takes no early
  return: it schedules the body literal by literal from an empty set of grounded
  variables. It raises the grounding error exactly when the run gets stuck, which is
  when some body literals, none of them a generator, all have an input variable that
  no other body literal outside their group produces. Otherwise it returns the body
  reordered: a permutation of the set of body literals in which every literal finds its
  input variables among the output variables of the literals before it.
\<close>

theorem order_rule_headless:
  assumes "st = None \<or> \<not> datalog (the st)"
  shows "((\<exists>R. R \<noteq> {} \<and> R \<subseteq> set body \<and>
              (\<forall>l \<in> R. card (outputs l) \<noteq> length (arguments l)
                 \<and> \<not> inputs l \<subseteq> \<Union> (outputs ` (set body - R))))
            \<longrightarrow> order_rule so st (None, body)
                  = Inl (ValueError (grounding_message (None, body))))
         \<and> (\<not> (\<exists>R. R \<noteq> {} \<and> R \<subseteq> set body \<and>
              (\<forall>l \<in> R. card (outputs l) \<noteq> length (arguments l)
                 \<and> \<not> inputs l \<subseteq> \<Union> (outputs ` (set body - R))))
            \<longrightarrow> (\<exists>ordered_body.
                   order_rule so st (None, body) = Inr (None, ordered_body)
                   \<and> mset ordered_body = mset (remdups body)
                   \<and> (\<forall>i < length ordered_body.
                        inputs (ordered_body ! i)
                          \<subseteq> \<Union> (outputs ` set (take i ordered_body)))))"
proof -
  have run: "order_rule so st (None, body)
               = order_loop so (None, body) None {} (remdups body) []"
    using assms by (auto simp: order_rule_def)
  show ?thesis
  proof (intro conjI impI)
    assume "\<exists>R. R \<noteq> {} \<and> R \<subseteq> set body \<and>
              (\<forall>l \<in> R. card (outputs l) \<noteq> length (arguments l)
                 \<and> \<not> inputs l \<subseteq> \<Union> (outputs ` (set body - R)))"
    then obtain R where R: "R \<noteq> {}" "R \<subseteq> set (remdups body)" and
      st: "\<forall>l \<in> R. card (outputs l) \<noteq> length (arguments l)
             \<and> \<not> inputs l \<subseteq> {} \<union> \<Union> (outputs ` (set (remdups body) - R))"
      by auto
    show "order_rule so st (None, body) = Inl (ValueError (grounding_message (None, body)))"
      unfolding run by (rule order_loop_stuck_error[OF R st])
  next
    assume free: "\<not> (\<exists>R. R \<noteq> {} \<and> R \<subseteq> set body \<and>
              (\<forall>l \<in> R. card (outputs l) \<noteq> length (arguments l)
                 \<and> \<not> inputs l \<subseteq> \<Union> (outputs ` (set body - R))))"
    show "\<exists>ordered_body.
            order_rule so st (None, body) = Inr (None, ordered_body)
            \<and> mset ordered_body = mset (remdups body)
            \<and> (\<forall>i < length ordered_body.
                  inputs (ordered_body ! i) \<subseteq> \<Union> (outputs ` set (take i ordered_body)))"
    proof (cases "order_loop so (None, body) None {} (remdups body) []")
      case (Inl e)
      from order_loop_error_stuck[OF Inl] have
        "\<exists>R. R \<noteq> {} \<and> R \<subseteq> set body \<and>
              (\<forall>l \<in> R. card (outputs l) \<noteq> length (arguments l)
                 \<and> \<not> inputs l \<subseteq> \<Union> (outputs ` (set body - R)))"
        by simp
      with free show ?thesis
        by contradiction
    next
      case (Inr res)
      obtain h ob where res: "res = (h, ob)"
        by (cases res)
      from order_loop_result[OF Inr[unfolded res]] have
        "h = None" and "mset ob = mset (remdups body)" and
        "\<forall>i < length ob. inputs (ob ! i) \<subseteq> \<Union> (outputs ` set (take i ob))"
        by auto
      with Inr res run show ?thesis
        by auto
    qed
  qed
qed

theorem order_rule_headless_witness:
  "order_rule listed None
     (None, [Literal ''g'' [''A''] [Out], Literal ''q'' [''B''] [In]])
   = Inl (ValueError ''None in clause :- g(A),q(B). could not be grounded'')
   \<and> order_rule listed None
       (None, [Literal ''q'' [''A''] [In], Literal ''r'' [''A''] [Out]])
     = Inr (None, [Literal ''r'' [''A''] [Out], Literal ''q'' [''A''] [In]])"
proof -
  let ?g = "Literal ''g'' [''A''] [Out]"
  let ?q = "Literal ''q'' [''B''] [In]"
  let ?q' = "Literal ''q'' [''A''] [In]"
  let ?r = "Literal ''r'' [''A''] [Out]"
  have m: "(None :: settings option) = None \<or> \<not> datalog (the None)"
    by simp
  have gq: "?g \<noteq> ?q"
    by (simp add: Literal_def)
  have "card (outputs ?q) \<noteq> length (arguments ?q)"
    and "\<not> inputs ?q \<subseteq> \<Union> (outputs ` {?g})"
    by (simp_all add: Literal_def inputs_def outputs_def)
  moreover have "set [?g, ?q] - {?q} = {?g}"
    using gq by auto
  ultimately have stuck: "\<exists>R. R \<noteq> {} \<and> R \<subseteq> set [?g, ?q] \<and>
      (\<forall>l \<in> R. card (outputs l) \<noteq> length (arguments l)
         \<and> \<not> inputs l \<subseteq> \<Union> (outputs ` (set [?g, ?q] - R)))"
    by (intro exI[of _ "{?q}"]) simp
  have msg: "grounding_message (None, [?g, ?q])
               = ''None in clause :- g(A),q(B). could not be grounded''"
    by (simp add: grounding_message_def format_rule_def format_literal_def Literal_def)
  have a: "order_rule listed None (None, [?g, ?q])
             = Inl (ValueError (grounding_message (None, [?g, ?q])))"
    using order_rule_headless[OF m, of "[?g, ?q]" listed, THEN conjunct1] stuck
    by blast
  have b: "order_rule listed None (None, [?q', ?r]) = Inr (None, [?r, ?q'])"
    by (simp add: Let_def order_rule_def set_eq_list_def order_loop.simps iterate_def
        listed_def Literal_def inputs_def outputs_def)
  from a b msg show ?thesis
    by simp
qed

section \<open>Properties of subsumption\<close>

text \<open>
  Claim C3 as stated fails: a rule without a head subsumes a rule with a head whose body
  contains its body, which the claim's head condition (the first rule has a head, or the
  second has none) excludes.
\<close>

theorem rule_subsumes_counterexample:
  "\<not> (rule_subsumes (None, {(''q'', [''A''])}) (Some (''p'', [''A'']), {(''q'', [''A''])})
       \<longleftrightarrow> ((None :: signature option) \<noteq> None \<or> Some (''p'', [''A'']) = None)
            \<and> {(''q'', [''A''])} \<subseteq> {(''q'', [''A''])})"
  by (simp add: rule_subsumes_def)

text \<open>
  Claim C3, amended. \<open>rule_subsumes r1 r2\<close> is true if and only if the first rule has no
  head or the second has one, and the first body is a subset of the second;
  \<open>theory_subsumes prog1 prog2\<close> is true if and only if every rule of the second program
  is subsumed by some rule of the first.
\<close>

theorem subsumption_characterisation:
  "(rule_subsumes r1 r2 \<longleftrightarrow> (fst r1 = None \<or> fst r2 \<noteq> None) \<and> snd r1 \<subseteq> snd r2)
   \<and> (theory_subsumes prog1 prog2
        \<longleftrightarrow> (\<forall>r2 \<in> set prog2. \<exists>r1 \<in> set prog1. rule_subsumes r1 r2))"
  by (auto simp: rule_subsumes_def theory_subsumes_def list_all_iff list_ex_iff Let_def)

theorem subsumption_characterisation_witness:
  "theory_subsumes
     [(Some (''p'', [''A'']), {(''q'', [''A''])})]
     [(Some (''p'', [''A'']), {(''q'', [''A'']), (''r'', [''A''])})]
   \<and> \<not> theory_subsumes
     [(Some (''p'', [''A'']), {(''q'', [''A'']), (''r'', [''A''])})]
     [(Some (''p'', [''A'']), {(''q'', [''A''])})]"
  using subsumption_characterisation
    [of "(Some (''p'', [''A'']), {(''q'', [''A''])})"
        "(Some (''p'', [''A'']), {(''q'', [''A'']), (''r'', [''A''])})"
        "[(Some (''p'', [''A'']), {(''q'', [''A''])})]"
        "[(Some (''p'', [''A'']), {(''q'', [''A'']), (''r'', [''A''])})]"]
    subsumption_characterisation
    [of "(Some (''p'', [''A'']), {(''q'', [''A'']), (''r'', [''A''])})"
        "(Some (''p'', [''A'']), {(''q'', [''A''])})"
        "[(Some (''p'', [''A'']), {(''q'', [''A'']), (''r'', [''A''])})]"
        "[(Some (''p'', [''A'']), {(''q'', [''A''])})]"]
  by simp

section \<open>Properties of the search order\<close>

text \<open>
  Claim C8. In the simple mode \<open>bias_order\<close> returns one entry per literal count from
  \<open>1\<close> to \<open>max_size - 1\<close>, in ascending order, each with the configured \<open>max_vars\<close> and
  \<open>max_rules\<close> and no estimated space; for \<open>max_size = 5\<close> these are the four entries with
  literal counts 1, 2, 3, 4.
\<close>

theorem bias_order_simple:
  assumes "\<not> no_bias st" and "\<not> order_space st"
  shows "bias_order st max_size
           = Inr (map (\<lambda>n. (n, max_vars st, max_rules st, None)) [1..max_size - 1])
         \<and> bias_order st 5
           = Inr [(1, max_vars st, max_rules st, None), (2, max_vars st, max_rules st, None),
                  (3, max_vars st, max_rules st, None), (4, max_vars st, max_rules st, None)]"
  using assms by (simp add: bias_order_def py_range_def upto_rec1)

theorem bias_order_simple_witness:
  "bias_order \<lparr>datalog = False, recall = Map.empty, no_bias = False, order_space = False,
       max_vars = 6, max_rules = 2, max_body = 6, max_arity = 2,
       body_preds = {(''q'', 2)}\<rparr> 5
   = Inr [(1, 6, 2, None), (2, 6, 2, None), (3, 6, 2, None), (4, 6, 2, None)]"
proof -
  let ?st = "\<lparr>datalog = False, recall = Map.empty, no_bias = False, order_space = False,
       max_vars = 6, max_rules = 2, max_body = 6, max_arity = 2,
       body_preds = {(''q'', 2)}\<rparr>"
  have a: "\<not> no_bias ?st" and b: "\<not> order_space ?st"
    by simp_all
  from conjunct2[OF bias_order_simple[OF a b, of 5]] show ?thesis
    by simp
qed

section \<open>Properties of the canonical order\<close>

lemma order_prog_sorted:
  "sorted (map (\<lambda>r. (rule_is_recursive r, length (snd r))) (order_prog prog))"
  by (simp add: order_prog_def)

text \<open>
  Claim C9. \<open>order_prog\<close> returns the rules of the program reordered so that no
  recursive rule stands before a non-recursive one, and of two rules of the same class
  the earlier has the body that is not longer.
\<close>

theorem order_prog_canonical:
  "mset (order_prog prog) = mset prog
   \<and> (\<forall>i j. i < j \<and> j < length (order_prog prog) \<longrightarrow>
         (rule_is_recursive (order_prog prog ! i) \<longrightarrow> rule_is_recursive (order_prog prog ! j))
         \<and> (rule_is_recursive (order_prog prog ! i) = rule_is_recursive (order_prog prog ! j)
              \<longrightarrow> length (snd (order_prog prog ! i)) \<le> length (snd (order_prog prog ! j))))"
proof (intro conjI allI impI)
  show "mset (order_prog prog) = mset prog"
    by (simp add: order_prog_def)
next
  fix i j
  assume ij: "i < j \<and> j < length (order_prog prog)"
  let ?k = "\<lambda>r. (rule_is_recursive r, length (snd r))"
  have "map ?k (order_prog prog) ! i \<le> map ?k (order_prog prog) ! j"
    using order_prog_sorted[of prog] ij by (simp add: sorted_iff_nth_mono del: map_map)
  then have le: "?k (order_prog prog ! i) \<le> ?k (order_prog prog ! j)"
    using ij by simp
  {
    assume "rule_is_recursive (order_prog prog ! i)"
    with le show "rule_is_recursive (order_prog prog ! j)"
      by (auto simp: less_eq_prod_def)
  }
  {
    assume "rule_is_recursive (order_prog prog ! i) = rule_is_recursive (order_prog prog ! j)"
    with le show "length (snd (order_prog prog ! i)) \<le> length (snd (order_prog prog ! j))"
      by (auto simp: less_eq_prod_def)
  }
qed

theorem order_prog_canonical_witness:
  "order_prog
     [(Some (Literal ''p'' [''A''] [In]), [Literal ''p'' [''A''] [In]]),
      (Some (Literal ''p'' [''A''] [In]), [Literal ''q'' [''A''] [In], Literal ''r'' [''A''] [In]])]
   = [(Some (Literal ''p'' [''A''] [In]), [Literal ''q'' [''A''] [In], Literal ''r'' [''A''] [In]]),
      (Some (Literal ''p'' [''A''] [In]), [Literal ''p'' [''A''] [In]])]
   \<and> \<not> rule_is_recursive
        (Some (Literal ''p'' [''A''] [In]), [Literal ''q'' [''A''] [In], Literal ''r'' [''A''] [In]])
   \<and> rule_is_recursive (Some (Literal ''p'' [''A''] [In]), [Literal ''p'' [''A''] [In]])"
proof -
  let ?rec = "(Some (Literal ''p'' [''A''] [In]), [Literal ''p'' [''A''] [In]])"
  let ?non = "(Some (Literal ''p'' [''A''] [In]),
               [Literal ''q'' [''A''] [In], Literal ''r'' [''A''] [In]])"
  have e: "order_prog [?rec, ?non] = [?non, ?rec]"
    by (simp add: order_prog_def rule_is_recursive_def Literal_def less_eq_prod_def)
  have r: "rule_is_recursive ?rec" and n: "\<not> rule_is_recursive ?non"
    by (simp_all add: rule_is_recursive_def Literal_def)
  from order_prog_canonical[of "[?rec, ?non]"] e r n show ?thesis
    by simp
qed

section \<open>Properties of deduplication\<close>

lemma set_update_subset: "set (AList.update k v al) \<subseteq> insert (k, v) (set al)"
  by (induction al) auto

lemma reduce_prog_key_head:
  "fst r \<noteq> None \<Longrightarrow>
     reduce_prog_key r = Inr (reduce_prog_f (the (fst r)), set (map reduce_prog_f (snd r)))"
  by (cases "fst r") (simp_all add: reduce_prog_key_def)

lemma reduce_loop_fold:
  "list_all (\<lambda>r. fst r \<noteq> None) prog \<Longrightarrow>
     reduce_loop reduced prog
       = Inr (fold (\<lambda>r. AList.update
                 (reduce_prog_f (the (fst r)), set (map reduce_prog_f (snd r))) r) prog reduced)"
proof (induction prog arbitrary: reduced)
  case Nil
  show ?case by simp
next
  case (Cons r rs)
  from Cons.prems have hd: "fst r \<noteq> None" and tl: "list_all (\<lambda>r. fst r \<noteq> None) rs"
    by simp_all
  show ?case
    by (simp add: reduce_prog_key_head[OF hd] Cons.IH[OF tl])
qed

lemma fold_update_distinct:
  "distinct (map fst al) \<Longrightarrow> distinct (map fst (fold (\<lambda>r. AList.update (kf r) r) prog al))"
  by (induction prog arbitrary: al) (simp_all add: distinct_update)

lemma fold_update_keys:
  "fst ` set (fold (\<lambda>r. AList.update (kf r) r) prog al) = fst ` set al \<union> kf ` set prog"
proof (induction prog arbitrary: al)
  case Nil
  show ?case by simp
next
  case (Cons r rs)
  have "fst ` set (fold (\<lambda>r. AList.update (kf r) r) (r # rs) al)
          = fst ` set (AList.update (kf r) r al) \<union> kf ` set rs"
    by (simp add: Cons.IH)
  also have "\<dots> = ({kf r} \<union> fst ` set al) \<union> kf ` set rs"
    by (simp only: dom_update)
  also have "\<dots> = fst ` set al \<union> kf ` set (r # rs)"
    by auto
  finally show ?case .
qed

lemma fold_update_entries:
  "set (fold (\<lambda>r. AList.update (kf r) r) prog al) \<subseteq> set al \<union> (\<lambda>r. (kf r, r)) ` set prog"
proof (induction prog arbitrary: al)
  case Nil
  show ?case by simp
next
  case (Cons r rs)
  have "set (fold (\<lambda>r. AList.update (kf r) r) (r # rs) al)
          \<subseteq> set (AList.update (kf r) r al) \<union> (\<lambda>r. (kf r, r)) ` set rs"
    using Cons.IH[of "AList.update (kf r) r al"] by simp
  also have "\<dots> \<subseteq> insert (kf r, r) (set al) \<union> (\<lambda>r. (kf r, r)) ` set rs"
    using set_update_subset[of "kf r" r al] by blast
  also have "\<dots> = set al \<union> (\<lambda>r. (kf r, r)) ` set (r # rs)"
    by auto
  finally show ?case .
qed

lemma reduce_prog_key_eq:
  "reduce_prog_key (Some h1, b1) = reduce_prog_key (Some h2, b2)
     \<longleftrightarrow> (predicate h1, arguments h1) = (predicate h2, arguments h2)
         \<and> (\<lambda>l. (predicate l, arguments l)) ` set b1 = (\<lambda>l. (predicate l, arguments l)) ` set b2"
proof -
  have f: "reduce_prog_f = (\<lambda>l. (predicate l, arguments l))"
    by (rule ext) (simp add: reduce_prog_f_def)
  show ?thesis
    by (simp add: reduce_prog_key_def f)
qed

text \<open>
  Claim C5 as stated fails for rules without a head: \<open>reduce_prog\<close> applies \<open>f\<close> to the
  head of every rule, and for two rules \<open>:- q(A).\<close> it raises \<open>AttributeError\<close> instead
  of keeping one of them.
\<close>

theorem reduce_prog_headless_counterexample:
  "reduce_prog [(None, [Literal ''q'' [''A''] [In]]), (None, [Literal ''q'' [''A''] [In]])]
   = Inl AttributeError"
  by (simp add: reduce_prog_def reduce_prog_key_def)

text \<open>
  Claim C5, amended. For a program all of whose rules have a head, \<open>reduce_prog\<close> returns
  rules of the program, no two of them with the same key and one for every key that
  occurs in the program; the keys of two rules are equal exactly when their heads have
  the same predicate and arguments and their bodies give the same set of
  (predicate, arguments) pairs, whatever the modes and the order of the body.
\<close>

theorem reduce_prog_dedup:
  assumes "list_all (\<lambda>r. fst r \<noteq> None) prog"
  shows "(\<exists>reps. reduce_prog prog = Inr reps \<and> set reps \<subseteq> set prog
            \<and> distinct (map reduce_prog_key reps)
            \<and> reduce_prog_key ` set reps = reduce_prog_key ` set prog)
         \<and> (reduce_prog_key (Some h1, b1) = reduce_prog_key (Some h2, b2)
              \<longleftrightarrow> (predicate h1, arguments h1) = (predicate h2, arguments h2)
                  \<and> (\<lambda>l. (predicate l, arguments l)) ` set b1
                      = (\<lambda>l. (predicate l, arguments l)) ` set b2)"
proof (rule conjI)
  define kf :: "rule \<Rightarrow> rule_key"
    where "kf = (\<lambda>r. (reduce_prog_f (the (fst r)), set (map reduce_prog_f (snd r))))"
  define out where "out = fold (\<lambda>r. AList.update (kf r) r) prog []"
  have loop: "reduce_loop [] prog = Inr out"
    unfolding out_def kf_def by (rule reduce_loop_fold[OF assms])
  have key_prog: "reduce_prog_key r = Inr (kf r)" if "r \<in> set prog" for r
  proof -
    from that assms have "fst r \<noteq> None"
      by (simp add: list_all_iff)
    then show ?thesis
      unfolding kf_def by (rule reduce_prog_key_head)
  qed
  have entries: "set out \<subseteq> (\<lambda>r. (kf r, r)) ` set prog"
    using fold_update_entries[of kf prog "[]"] by (simp add: out_def)
  have entry: "snd p \<in> set prog \<and> fst p = kf (snd p)" if "p \<in> set out" for p
    using that entries by auto
  have key_out: "reduce_prog_key (snd p) = Inr (fst p)" if "p \<in> set out" for p
    using entry[OF that] key_prog[of "snd p"] by simp
  have keys: "map reduce_prog_key (map snd out) = map Inr (map fst out)"
    using key_out by (simp add: map_eq_conv)
  have res: "reduce_prog prog = Inr (map snd out)"
    by (simp add: reduce_prog_def loop)
  have sub: "set (map snd out) \<subseteq> set prog"
    using entry by auto
  have "distinct (map fst out)"
    unfolding out_def by (rule fold_update_distinct) simp
  then have dist: "distinct (map reduce_prog_key (map snd out))"
    unfolding keys by (simp add: distinct_map inj_on_def)
  have "fst ` set out = kf ` set prog"
    using fold_update_keys[of kf prog "[]"] by (simp add: out_def)
  then have "Inr ` fst ` set out = Inr ` kf ` set prog"
    by simp
  also have "\<dots> = reduce_prog_key ` set prog"
    using key_prog by (simp add: image_image)
  finally have "set (map Inr (map fst out)) = reduce_prog_key ` set prog"
    by (simp add: image_image)
  then have img: "reduce_prog_key ` set (map snd out) = reduce_prog_key ` set prog"
    using keys by (metis set_map)
  from res sub dist img
  show "\<exists>reps. reduce_prog prog = Inr reps \<and> set reps \<subseteq> set prog
            \<and> distinct (map reduce_prog_key reps)
            \<and> reduce_prog_key ` set reps = reduce_prog_key ` set prog"
    by (intro exI[of _ "map snd out"] conjI)
next
  show "reduce_prog_key (Some h1, b1) = reduce_prog_key (Some h2, b2)
              \<longleftrightarrow> (predicate h1, arguments h1) = (predicate h2, arguments h2)
                  \<and> (\<lambda>l. (predicate l, arguments l)) ` set b1
                      = (\<lambda>l. (predicate l, arguments l)) ` set b2"
    by (rule reduce_prog_key_eq)
qed

theorem reduce_prog_dedup_witness:
  "reduce_prog
     [(Some (Literal ''p'' [''A'', ''B''] [In, Out]),
       [Literal ''q'' [''A''] [In], Literal ''r'' [''B''] [Out]]),
      (Some (Literal ''p'' [''A'', ''B''] [In, Out]),
       [Literal ''r'' [''B''] [Out], Literal ''q'' [''A''] [In]])]
   = Inr [(Some (Literal ''p'' [''A'', ''B''] [In, Out]),
           [Literal ''r'' [''B''] [Out], Literal ''q'' [''A''] [In]])]"
proof -
  let ?p = "Literal ''p'' [''A'', ''B''] [In, Out]"
  let ?q = "Literal ''q'' [''A''] [In]"
  let ?r = "Literal ''r'' [''B''] [Out]"
  have heads: "list_all (\<lambda>r. fst r \<noteq> None) [(Some ?p, [?q, ?r]), (Some ?p, [?r, ?q])]"
    by simp
  have same: "reduce_prog_key (Some ?p, [?q, ?r]) = reduce_prog_key (Some ?p, [?r, ?q])"
    using reduce_prog_dedup[OF heads, of ?p "[?q, ?r]" ?p "[?r, ?q]"] by auto
  then show ?thesis
    by (simp add: reduce_prog_def reduce_prog_key_def)
qed

section \<open>Properties of the expanded search order\<close>

lemma comb_nonneg: "comb n k = Inr h \<Longrightarrow> 0 \<le> h"
  by (auto simp: comb_def split: if_splits)

lemma vars_loop_spaces:
  "vars_loop st size_rules size_literals vs ret = Inr ret' \<Longrightarrow>
     list_all (\<lambda>e. \<exists>h. snd (snd (snd e)) = Some h \<and> 0 < h) ret \<Longrightarrow>
     list_all (\<lambda>e. \<exists>h. snd (snd (snd e)) = Some h \<and> 0 < h) ret'"
proof (induction vs arbitrary: ret)
  case Nil
  then show ?case by simp
next
  case (Cons v vs)
  show ?case
  proof (cases "v > size_literals * int (max_arity st) - 1")
    case True
    with Cons.prems show ?thesis by (simp add: Let_def)
  next
    case False
    from Cons.prems(1) False obtain hspace where
      c: "comb ((int (card (body_preds st)) + 1) * v ^ max_arity st) size_literals = Inr hspace"
      by (auto simp: Let_def split: sum.splits)
    show ?thesis
    proof (cases "hspace = 0 \<or> (size_rules > 1 \<and> size_literals < 5)")
      case True
      with Cons.prems(1) False c
      have "vars_loop st size_rules size_literals vs ret = Inr ret'"
        by (auto simp: Let_def split: if_splits)
      from Cons.IH[OF this Cons.prems(2)] show ?thesis .
    next
      case skip: False
      with Cons.prems(1) False c
      have r: "vars_loop st size_rules size_literals vs
                 (ret @ [(size_literals, v, size_rules, Some hspace)]) = Inr ret'"
        by (auto simp: Let_def split: if_splits)
      have "0 < hspace"
        using comb_nonneg[OF c] skip by simp
      with Cons.prems(2)
      have "list_all (\<lambda>e. \<exists>h. snd (snd (snd e)) = Some h \<and> 0 < h)
              (ret @ [(size_literals, v, size_rules, Some hspace)])"
        by simp
      from Cons.IH[OF r this] show ?thesis .
    qed
  qed
qed

lemma literals_loop_spaces:
  "literals_loop st size_rules ls ret = Inr ret' \<Longrightarrow>
     list_all (\<lambda>e. \<exists>h. snd (snd (snd e)) = Some h \<and> 0 < h) ret \<Longrightarrow>
     list_all (\<lambda>e. \<exists>h. snd (snd (snd e)) = Some h \<and> 0 < h) ret'"
proof (induction ls arbitrary: ret)
  case Nil
  then show ?case by simp
next
  case (Cons l ls)
  from Cons.prems(1) obtain mid where
    v: "vars_loop st size_rules l
          (py_range (if no_bias st then 1 else max_vars st) (max_vars st + 1)) ret = Inr mid"
    and r: "literals_loop st size_rules ls mid = Inr ret'"
    by (auto simp: Let_def split: sum.splits)
  from Cons.IH[OF r vars_loop_spaces[OF v Cons.prems(2)]] show ?case .
qed

lemma rules_loop_spaces:
  "rules_loop st rs ret = Inr ret' \<Longrightarrow>
     list_all (\<lambda>e. \<exists>h. snd (snd (snd e)) = Some h \<and> 0 < h) ret \<Longrightarrow>
     list_all (\<lambda>e. \<exists>h. snd (snd (snd e)) = Some h \<and> 0 < h) ret'"
proof (induction rs arbitrary: ret)
  case Nil
  then show ?case by simp
next
  case (Cons r rs)
  from Cons.prems(1) obtain mid where
    l: "literals_loop st r (py_range 1 ((1 + max_body st) * r + 1)) ret = Inr mid"
    and rest: "rules_loop st rs mid = Inr ret'"
    by (auto simp: Let_def split: sum.splits)
  from Cons.IH[OF rest literals_loop_spaces[OF l Cons.prems(2)]] show ?case .
qed

lemma sorted_fst_of_pairs:
  fixes f :: "'a \<Rightarrow> 'b::linorder" and g :: "'a \<Rightarrow> 'c::linorder"
  assumes "sorted (map (\<lambda>x. (f x, g x)) xs)"
  shows "sorted (map f xs)"
proof -
  from assms have "sorted_wrt (\<lambda>x y. (f x, g x) \<le> (f y, g y)) xs"
    by (simp add: sorted_map)
  then have "sorted_wrt (\<lambda>x y. f x \<le> f y) xs"
    by (rule sorted_wrt_mono_rel[rotated]) (auto simp: less_eq_prod_def)
  then show ?thesis
    by (simp add: sorted_map)
qed

text \<open>
  Claim C7. With \<open>order_space\<close> set, the list that \<open>bias_order\<close> returns is sorted by the
  pair (estimated space, literal count), hence non-decreasing in the estimated space,
  and every entry carries an estimated space that is an integer other than zero.
\<close>

theorem bias_order_by_space:
  assumes "order_space st" and "bias_order st max_size = Inr es"
  shows "sorted (map (\<lambda>e. (snd (snd (snd e)), fst e)) es)
         \<and> sorted (map (\<lambda>e. snd (snd (snd e))) es)
         \<and> list_all (\<lambda>e. \<exists>h. snd (snd (snd e)) = Some h \<and> h \<noteq> 0) es"
proof -
  from assms obtain ret where
    loop: "rules_loop st (py_range (if no_bias st then 1 else max_rules st) (max_rules st + 1)) []
             = Inr ret"
    and es: "es = sort_key (\<lambda>tup. (snd (snd (snd tup)), fst tup)) ret"
    by (auto simp: bias_order_def Let_def split: sum.splits)
  have s: "sorted (map (\<lambda>e. (snd (snd (snd e)), fst e)) es)"
    unfolding es by (rule sorted_sort_key)
  have "list_all (\<lambda>e. \<exists>h. snd (snd (snd e)) = Some h \<and> 0 < h) ret"
    by (rule rules_loop_spaces[OF loop]) simp
  then have "list_all (\<lambda>e. \<exists>h. snd (snd (snd e)) = Some h \<and> 0 < h) es"
    unfolding es by (simp add: list_all_iff)
  then have "list_all (\<lambda>e. \<exists>h. snd (snd (snd e)) = Some h \<and> h \<noteq> 0) es"
    by (rule list.pred_mono_strong) auto
  with s sorted_fst_of_pairs[OF s] show ?thesis
    by simp
qed


theorem bias_order_by_space_witness:
  "bias_order \<lparr>datalog = False, recall = Map.empty, no_bias = True, order_space = True,
       max_vars = 2, max_rules = 1, max_body = 1, max_arity = 2,
       body_preds = {(''q'', 2)}\<rparr> 5
   = Inr [(2, 1, 1, Some 1), (1, 1, 1, Some 2), (2, 2, 1, Some 28)]
   \<and> sorted [Some (1::int), Some 2, Some 28]"
proof -
  let ?st = "\<lparr>datalog = False, recall = Map.empty, no_bias = True, order_space = True,
       max_vars = 2, max_rules = 1, max_body = 1, max_arity = 2,
       body_preds = {(''q'', 2)}\<rparr>"
  have o: "order_space ?st"
    by simp
  have e: "bias_order ?st 5 = Inr [(2, 1, 1, Some 1), (1, 1, 1, Some 2), (2, 2, 1, Some 28)]"
    by (simp add: bias_order_def py_range_def Let_def comb_def choose_two upto_rec1
        less_eq_prod_def)
  from bias_order_by_space[OF o e] e show ?thesis
    by simp
qed

lemma vars_loop_returns:
  "0 \<le> size_literals \<Longrightarrow> list_all (\<lambda>v. 0 \<le> v) vs \<Longrightarrow>
     \<exists>ret'. vars_loop st size_rules size_literals vs ret = Inr ret'"
proof (induction vs arbitrary: ret)
  case Nil
  show ?case by simp
next
  case (Cons v vs)
  from Cons.prems have v: "0 \<le> v" and vs: "list_all (\<lambda>v. 0 \<le> v) vs"
    by simp_all
  have "0 \<le> (int (card (body_preds st)) + 1) * v ^ max_arity st"
    using v by simp
  then have c: "comb ((int (card (body_preds st)) + 1) * v ^ max_arity st) size_literals
                  = Inr (int (nat ((int (card (body_preds st)) + 1) * v ^ max_arity st)
                               choose nat size_literals))"
    using Cons.prems(1) by (simp add: comb_def)
  show ?case
    using Cons.IH[OF Cons.prems(1) vs] by (simp add: Let_def c)
qed

lemma literals_loop_returns:
  "list_all (\<lambda>l. 0 \<le> l) ls \<Longrightarrow> no_bias st \<or> 0 \<le> max_vars st \<Longrightarrow>
     \<exists>ret'. literals_loop st size_rules ls ret = Inr ret'"
proof (induction ls arbitrary: ret)
  case Nil
  show ?case by simp
next
  case (Cons l ls)
  from Cons.prems(1) have l: "0 \<le> l" and ls: "list_all (\<lambda>l. 0 \<le> l) ls"
    by simp_all
  have "list_all (\<lambda>v. 0 \<le> v) (py_range (if no_bias st then 1 else max_vars st) (max_vars st + 1))"
    using Cons.prems(2) by (auto simp: py_range_def list_all_iff)
  from vars_loop_returns[OF l this] obtain mid where
    "vars_loop st size_rules l
       (py_range (if no_bias st then 1 else max_vars st) (max_vars st + 1)) ret = Inr mid"
    by blast
  then show ?case
    using Cons.IH[OF ls Cons.prems(2), of mid] by (simp add: Let_def)
qed

lemma rules_loop_returns:
  "no_bias st \<or> 0 \<le> max_vars st \<Longrightarrow> \<exists>ret'. rules_loop st rs ret = Inr ret'"
proof (induction rs arbitrary: ret)
  case Nil
  show ?case by simp
next
  case (Cons r rs)
  have "list_all (\<lambda>l. 0 \<le> l) (py_range 1 ((1 + max_body st) * r + 1))"
    by (auto simp: py_range_def list_all_iff)
  from literals_loop_returns[OF this Cons.prems] obtain mid where
    "literals_loop st r (py_range 1 ((1 + max_body st) * r + 1)) ret = Inr mid"
    by blast
  then show ?case
    using Cons.IH[OF Cons.prems, of mid] by (simp add: Let_def)
qed

text \<open>
  \<open>bias_order\<close> returns a list unless \<open>math.comb\<close> is given a negative number, which
  takes a negative \<open>max_vars\<close> in a run that does not set \<open>no_bias\<close>.
\<close>

lemma bias_order_returns:
  assumes "no_bias st \<or> 0 \<le> max_vars st"
  shows "\<exists>es. bias_order st max_size = Inr es"
proof -
  from rules_loop_returns[OF assms] obtain ret where
    "rules_loop st (py_range (if no_bias st then 1 else max_rules st) (max_rules st + 1)) []
       = Inr ret"
    by blast
  then show ?thesis
    by (simp add: bias_order_def Let_def)
qed

end
